theory Spec2Isabelle
  imports Complex_Main
begin

section \<open>The push-relabel engine of maxflow-4.c\<close>

text \<open>
  The embedding follows \<^verbatim>\<open>src/algorithms/graphs/max-flow/maxflow-4.c\<close> function by
  function. Conventions of the model:
  \<^item> A C array is a list, and the counters stored beside it (\<^verbatim>\<open>nNodes\<close>, \<^verbatim>\<open>nEdges\<close>,
    \<^verbatim>\<open>nAdj\<close>) are the lengths of the lists. The spare capacities (\<^verbatim>\<open>edgeCap\<close>,
    \<^verbatim>\<open>adjCap\<close>) only drive \<^verbatim>\<open>realloc\<close> and are left out; allocation is assumed to
    succeed.
  \<^item> The pointer \<^verbatim>\<open>edge *rev\<close> is the index of the twin in \<^verbatim>\<open>G->edges\<close> (edges are never
    moved or freed while the graph lives), \<open>None\<close> for the null pointer that
    \<^verbatim>\<open>calloc\<close> leaves. A \<^verbatim>\<open>node *\<close> is the index of the node in \<^verbatim>\<open>G->nodes\<close>.
  \<^item> A \<^verbatim>\<open>double\<close> is a real number: rounding is not modelled.
  \<^item> An \<^verbatim>\<open>int\<close> that holds an id or a height is an \<open>int\<close>; the one addition that
    can leave the 32-bit range (\<^verbatim>\<open>height + 1\<close>) is wrapped to two's complement by
    \<open>wrap_int\<close>, which is what the usual compilers produce for the overflow
    that ISO C leaves undefined.
  \<^item> An index outside its array while the graph is built is the result
    \<open>Inl OutOfBounds\<close>. The engine's functions are total; they are meant for graphs
    that satisfy \<open>wf_graph\<close>, where every index they use is inside its array.
\<close>

subsection \<open>Constants and macros\<close>

definition INF_c :: int where
  "INF_c = 2147483647"

definition wrap_int :: "int \<Rightarrow> int" where
  "wrap_int x = (x + 2147483648) mod 4294967296 - 2147483648"

definition MIN_c :: "'a::linorder \<Rightarrow> 'a \<Rightarrow> 'a" where
  "MIN_c a b = (if a < b then a else b)"

subsection \<open>Data structures\<close>

record edge =
  from_node :: int
  to_node :: int
  cap :: real
  flow :: real
  reverse :: bool
  rev_edge :: "nat option"

record node =
  node_id :: int
  adj :: "nat list"
  height :: int
  adjIdx :: nat
  excess :: real

record graph =
  nodes :: "node list"
  edges :: "edge list"
  maxFlowVal :: real

record queue =
  qfront :: nat
  qback :: nat
  qsize :: nat
  qarray :: "int list"

datatype fault = OutOfBounds

subsection \<open>Queue functions\<close>

definition isEmpty :: "queue \<Rightarrow> bool" where
  "isEmpty Q = (qfront Q = qback Q)"

definition newQueue :: "nat \<Rightarrow> queue" where
  "newQueue n = \<lparr>qfront = 0, qback = 0, qsize = n, qarray = replicate n 0\<rparr>"

text \<open>\<^verbatim>\<open>realloc\<close> leaves the new cells uninitialised; the model fills them with 0.
  The loop copies the cells below \<open>qback\<close> into the new half.\<close>

definition doubleQueueSize :: "queue \<Rightarrow> queue" where
  "doubleQueueSize Q =
     (let a = qarray Q @ replicate (qsize Q) 0;
          a' = fold (\<lambda>i b. b[i + qsize Q := b ! i]) [0..<qback Q] a
      in Q\<lparr>qarray := a', qback := qback Q + qsize Q, qsize := 2 * qsize Q\<rparr>)"

definition enqueue :: "queue \<Rightarrow> int \<Rightarrow> queue" where
  "enqueue Q n =
     (let Q1 = Q\<lparr>qarray := (qarray Q)[qback Q := n]\<rparr>;
          Q2 = Q1\<lparr>qback := (qback Q1 + 1) mod qsize Q1\<rparr>
      in if qback Q2 = qfront Q2 then doubleQueueSize Q2 else Q2)"

text \<open>\<^verbatim>\<open>dequeue\<close> on an empty queue prints an error and exits: \<open>None\<close>.\<close>

definition dequeue :: "queue \<Rightarrow> (int \<times> queue) option" where
  "dequeue Q =
     (if isEmpty Q then None
      else Some (qarray Q ! qfront Q, Q\<lparr>qfront := (qfront Q + 1) mod qsize Q\<rparr>))"

subsection \<open>Graph functions\<close>

definition newNode :: "int \<Rightarrow> node" where
  "newNode i = \<lparr>node_id = i, adj = [], height = 0, adjIdx = 0, excess = 0\<rparr>"

definition newGraph :: "nat \<Rightarrow> graph" where
  "newGraph n = \<lparr>nodes = map (\<lambda>i. newNode (int i)) [0..<n], edges = [], maxFlowVal = 0\<rparr>"

text \<open>\<^verbatim>\<open>addEdge\<close> reads \<^verbatim>\<open>G->nodes[uId]\<close> without a check; \<open>vId\<close> is only stored.
  The C function returns the new edge, which no caller uses.\<close>

definition addEdge :: "graph \<Rightarrow> int \<Rightarrow> int \<Rightarrow> real \<Rightarrow> bool \<Rightarrow> fault + graph" where
  "addEdge G uId vId c r =
     (if 0 \<le> uId \<and> uId < int (length (nodes G)) then
        let e = \<lparr>from_node = uId, to_node = vId, cap = c, flow = 0, reverse = r,
                 rev_edge = None\<rparr>;
            u = nodes G ! nat uId
        in Inr (G\<lparr>nodes := (nodes G)[nat uId := u\<lparr>adj := adj u @ [length (edges G)]\<rparr>],
                  edges := edges G @ [e]\<rparr>)
      else Inl OutOfBounds)"

definition linkTwins :: "graph \<Rightarrow> graph" where
  "linkTwins G =
     (let m = length (edges G);
          es1 = (edges G)[m - 2 := (edges G ! (m - 2))\<lparr>rev_edge := Some (m - 1)\<rparr>];
          es2 = es1[m - 1 := (es1 ! (m - 1))\<lparr>rev_edge := Some (m - 2)\<rparr>]
      in G\<lparr>edges := es2\<rparr>)"

text \<open>The input of \<^verbatim>\<open>buildGraph\<close> is the list of triples that \<^verbatim>\<open>scanf\<close> reads.\<close>

fun buildGraph :: "graph \<Rightarrow> (int \<times> int \<times> real) list \<Rightarrow> fault + graph" where
  "buildGraph G [] = Inr G"
| "buildGraph G ((u, v, c) # ts) =
     (case addEdge G u v c False of
        Inl f \<Rightarrow> Inl f
      | Inr G1 \<Rightarrow>
          (case addEdge G1 v u 0 True of
             Inl f \<Rightarrow> Inl f
           | Inr G2 \<Rightarrow> buildGraph (linkTwins G2) ts))"

subsection \<open>Push and relabel\<close>

text \<open>One round of the loop of \<^verbatim>\<open>initPreflow\<close>, for the edge index \<open>eId\<close>.\<close>

definition saturate :: "nat \<Rightarrow> graph \<times> queue \<Rightarrow> graph \<times> queue" where
  "saturate eId GQ =
     (case GQ of (G, Q) \<Rightarrow>
        let e = edges G ! eId;
            es1 = (edges G)[eId := e\<lparr>flow := cap e\<rparr>];
            r = the (rev_edge e);
            es2 = es1[r := (es1 ! r)\<lparr>flow := - cap e\<rparr>];
            v = nat (to_node e);
            ns = (nodes G)[v := (nodes G ! v)\<lparr>excess := excess (nodes G ! v) + cap e\<rparr>]
        in (G\<lparr>nodes := ns, edges := es2\<rparr>, enqueue Q (to_node e)))"

definition initPreflow :: "graph \<Rightarrow> nat \<Rightarrow> queue \<Rightarrow> graph \<times> queue" where
  "initPreflow G s Q =
     (let u = nodes G ! s;
          G1 = G\<lparr>nodes := (nodes G)[s := u\<lparr>height := int (length (nodes G))\<rparr>]\<rparr>
      in fold saturate (adj u) (G1, Q))"

definition setAdjIdx :: "graph \<Rightarrow> nat \<Rightarrow> nat \<Rightarrow> graph" where
  "setAdjIdx G u i = G\<lparr>nodes := (nodes G)[u := (nodes G ! u)\<lparr>adjIdx := i\<rparr>]\<rparr>"

text \<open>The body of the \<^verbatim>\<open>if\<close> in \<^verbatim>\<open>push\<close>: the flow update along the edge \<open>eId\<close>
  of \<open>u\<close>, in the order of the source.\<close>

definition pushAlong :: "graph \<Rightarrow> nat \<Rightarrow> nat \<Rightarrow> queue \<Rightarrow> graph \<times> queue" where
  "pushAlong G u eId Q =
     (let e = edges G ! eId;
          v = nat (to_node e);
          delta = MIN_c (excess (nodes G ! u)) (cap e - flow e);
          es1 = (edges G)[eId := e\<lparr>flow := flow e + delta\<rparr>];
          r = the (rev_edge e);
          es2 = es1[r := (es1 ! r)\<lparr>flow := flow (es1 ! r) - delta\<rparr>];
          ns1 = (nodes G)[u := (nodes G ! u)\<lparr>excess := excess (nodes G ! u) - delta\<rparr>];
          ns2 = ns1[v := (ns1 ! v)\<lparr>excess := excess (ns1 ! v) + delta\<rparr>];
          G' = G\<lparr>nodes := ns2, edges := es2\<rparr>
      in (G', if excess (ns2 ! v) = delta then enqueue Q (node_id (ns2 ! v)) else Q))"

function push_loop :: "graph \<Rightarrow> nat \<Rightarrow> queue \<Rightarrow> nat \<Rightarrow> bool \<times> graph \<times> queue" where
  "push_loop G u Q i =
     (if i < length (adj (nodes G ! u)) then
        let G1 = setAdjIdx G u i;
            e = edges G1 ! (adj (nodes G1 ! u) ! i);
            v = nat (to_node e)
        in if cap e - flow e > 0
              \<and> height (nodes G1 ! u) = wrap_int (height (nodes G1 ! v) + 1)
           then (case pushAlong G1 u (adj (nodes G1 ! u) ! i) Q of (G', Q') \<Rightarrow> (True, G', Q'))
           else push_loop G1 u Q (i + 1)
      else (False, setAdjIdx G u 0, Q))"
  by pat_completeness auto

lemma adj_setAdjIdx: "adj (nodes (setAdjIdx G u i) ! v) = adj (nodes G ! v)"
  by (cases "u < length (nodes G)"; cases "v = u")
     (simp_all add: setAdjIdx_def list_update_beyond)

termination push_loop
  by (relation "measure (\<lambda>(G, u, Q, i). length (adj (nodes G ! u)) - i)")
     (auto simp: adj_setAdjIdx)

declare push_loop.simps [simp del]

definition push :: "graph \<Rightarrow> nat \<Rightarrow> queue \<Rightarrow> bool \<times> graph \<times> queue" where
  "push G u Q = push_loop G u Q (adjIdx (nodes G ! u))"

text \<open>One round of the loop of \<^verbatim>\<open>relabel\<close>: the running minimum after the edge
  \<open>eId\<close>.\<close>

definition relabel_min :: "graph \<Rightarrow> nat \<Rightarrow> int \<Rightarrow> int" where
  "relabel_min G eId m =
     (let e = edges G ! eId;
          v = nodes G ! nat (to_node e)
      in if cap e - flow e > 0 \<and> height v < m then MIN_c m (height v) else m)"

definition relabel :: "graph \<Rightarrow> nat \<Rightarrow> queue \<Rightarrow> graph \<times> queue" where
  "relabel G u Q =
     (let m = fold (relabel_min G) (adj (nodes G ! u)) INF_c
      in (G\<lparr>nodes := (nodes G)[u := (nodes G ! u)\<lparr>height := wrap_int (m + 1)\<rparr>]\<rparr>, Q))"

subsection \<open>The discharge loop\<close>

text \<open>The body of the \<^verbatim>\<open>while\<close> loop of \<^verbatim>\<open>maxFlow\<close> after \<^verbatim>\<open>dequeue\<close> has returned
  \<open>uId\<close> and left the queue \<open>Q\<close>.\<close>

definition iteration :: "nat \<Rightarrow> nat \<Rightarrow> graph \<Rightarrow> queue \<Rightarrow> int \<Rightarrow> graph \<times> queue" where
  "iteration s t G Q uId =
     (if uId = int t \<or> uId = int s then (G, Q)
      else
        let u = nat uId in
        case push G u Q of
          (pushed, G1, Q1) \<Rightarrow>
            (case (if \<not> pushed then relabel G1 u Q1 else (G1, Q1)) of
               (G2, Q2) \<Rightarrow>
                 if excess (nodes G2 ! u) > 0 then (G2, enqueue Q2 uId) else (G2, Q2)))"



text \<open>The first \<open>k\<close> rounds of the discharge loop (fewer when the queue runs empty
  before): the intermediate states of solving.\<close>

fun rounds :: "nat \<Rightarrow> nat \<Rightarrow> nat \<Rightarrow> graph \<times> queue \<Rightarrow> graph \<times> queue" where
  "rounds 0 s t GQ = GQ"
| "rounds (Suc k) s t GQ =
     (case GQ of (G, Q) \<Rightarrow>
        (case dequeue Q of
           None \<Rightarrow> (G, Q)
         | Some (uId, Q1) \<Rightarrow> rounds k s t (iteration s t G Q1 uId)))"

subsection \<open>The queue as a list\<close>

text \<open>The circular buffer stands for the list of its entries from \<open>qfront\<close> to
  \<open>qback\<close>, oldest first; \<open>qinv\<close> is what the queue functions keep true of it.\<close>

definition qinv :: "queue \<Rightarrow> bool" where
  "qinv Q = (0 < qsize Q \<and> length (qarray Q) = qsize Q \<and> qfront Q < qsize Q \<and> qback Q < qsize Q)"

definition qlist :: "queue \<Rightarrow> int list" where
  "qlist Q =
     (if qfront Q \<le> qback Q then take (qback Q - qfront Q) (drop (qfront Q) (qarray Q))
      else drop (qfront Q) (qarray Q) @ take (qback Q) (qarray Q))"

subsection \<open>Well-formed graphs\<close>

text \<open>\<open>twin\<close> follows the pointer \<^verbatim>\<open>rev\<close>. In a well-formed graph every edge has
  endpoints inside the node array and a twin that points back, runs the other way and
  carries the other \<^verbatim>\<open>reverse\<close> flag; every adjacency list holds, without
  repetition, indices of edges that leave its node. \<open>fresh_graph\<close> is the state
  \<^verbatim>\<open>calloc\<close> leaves: no flow, no excess, heights and cursors 0. \<open>ids_ok\<close> is the
  input contract on node ids.\<close>

definition twin :: "graph \<Rightarrow> nat \<Rightarrow> nat" where
  "twin G k = the (rev_edge (edges G ! k))"

definition wf_edge :: "graph \<Rightarrow> nat \<Rightarrow> bool" where
  "wf_edge G k =
     (let e = edges G ! k; e' = edges G ! twin G k; n = int (length (nodes G))
      in 0 \<le> from_node e \<and> from_node e < n \<and> 0 \<le> to_node e \<and> to_node e < n
         \<and> rev_edge e \<noteq> None \<and> twin G k < length (edges G) \<and> twin G k \<noteq> k
         \<and> twin G (twin G k) = k
         \<and> from_node e' = to_node e \<and> to_node e' = from_node e
         \<and> reverse e' = (\<not> reverse e))"

definition wf_node :: "graph \<Rightarrow> nat \<Rightarrow> bool" where
  "wf_node G i =
     (let u = nodes G ! i
      in node_id u = int i \<and> distinct (adj u)
         \<and> (\<forall>k \<in> set (adj u). k < length (edges G) \<and> from_node (edges G ! k) = int i))"

definition wf_graph :: "graph \<Rightarrow> bool" where
  "wf_graph G = ((\<forall>k < length (edges G). wf_edge G k) \<and> (\<forall>i < length (nodes G). wf_node G i))"

definition fresh_graph :: "graph \<Rightarrow> bool" where
  "fresh_graph G =
     ((\<forall>e \<in> set (edges G). flow e = 0)
      \<and> (\<forall>u \<in> set (nodes G). excess u = 0 \<and> height u = 0 \<and> adjIdx u = 0))"

text \<open>What one round of the loop of \<^verbatim>\<open>buildGraph\<close> makes of the graph when both ids
  are in range (lemma \<open>build_round\<close>).\<close>

definition addPair :: "graph \<Rightarrow> int \<Rightarrow> int \<Rightarrow> real \<Rightarrow> graph" where
  "addPair G u v c =
     (let m = length (edges G);
          ns1 = (nodes G)[nat u := (nodes G ! nat u)\<lparr>adj := adj (nodes G ! nat u) @ [m]\<rparr>];
          ns2 = ns1[nat v := (ns1 ! nat v)\<lparr>adj := adj (ns1 ! nat v) @ [Suc m]\<rparr>]
      in G\<lparr>nodes := ns2,
           edges := edges G @
             [\<lparr>from_node = u, to_node = v, cap = c, flow = 0, reverse = False, rev_edge = Some (Suc m)\<rparr>,
              \<lparr>from_node = v, to_node = u, cap = 0, flow = 0, reverse = True, rev_edge = Some m\<rparr>]\<rparr>)"

definition ids_ok :: "nat \<Rightarrow> (int \<times> int \<times> real) list \<Rightarrow> bool" where
  "ids_ok n ts = list_all (\<lambda>(u, v, c). 0 \<le> u \<and> u < int n \<and> 0 \<le> v \<and> v < int n) ts"

subsection \<open>Residual capacity, admissible edges, height validity\<close>

text \<open>\<open>residual\<close> is the residual capacity of an edge. An edge \<open>k\<close> that leaves \<open>u\<close> is
  admissible when \<^verbatim>\<open>push\<close> would take it: positive residual capacity and
  \<^verbatim>\<open>u->height == v->height + 1\<close>. \<open>pushDelta\<close> is the amount \<^verbatim>\<open>push\<close> moves along it.
  \<open>height_valid\<close> says that no edge with positive residual capacity runs downhill by
  more than one.\<close>

definition residual :: "graph \<Rightarrow> nat \<Rightarrow> real" where
  "residual G k = cap (edges G ! k) - flow (edges G ! k)"


definition pushDelta :: "graph \<Rightarrow> nat \<Rightarrow> nat \<Rightarrow> real" where
  "pushDelta G u k = MIN_c (excess (nodes G ! u)) (residual G k)"

definition height_valid :: "graph \<Rightarrow> bool" where
  "height_valid G =
     list_all (\<lambda>e. if cap e - flow e > 0
                    then height (nodes G ! nat (from_node e))
                           \<le> height (nodes G ! nat (to_node e)) + 1
                    else True) (edges G)"

subsection \<open>What the engine never changes\<close>

text \<open>The engine writes the flow of an edge and the height, the cursor and the excess of
  a node, nothing else. \<open>same_shape\<close> compares two graphs with these fields blanked.
  \<open>adj_exact\<close> says that each adjacency list is the list of the edges that leave its
  node, in the order of \<^verbatim>\<open>G->edges\<close>; \<open>leaving G s\<close> is that list for \<open>s\<close>.\<close>

definition edge_static :: "edge \<Rightarrow> edge" where
  "edge_static e = e\<lparr>flow := 0\<rparr>"

definition node_static :: "node \<Rightarrow> node" where
  "node_static u = u\<lparr>height := 0, adjIdx := 0, excess := 0\<rparr>"

definition same_shape :: "graph \<Rightarrow> graph \<Rightarrow> bool" where
  "same_shape G G' =
     (map edge_static (edges G') = map edge_static (edges G)
      \<and> map node_static (nodes G') = map node_static (nodes G))"

definition adj_exact :: "graph \<Rightarrow> bool" where
  "adj_exact G =
     list_all (\<lambda>i. adj (nodes G ! i)
                  = filter (\<lambda>k. from_node (edges G ! k) = int i) [0..<length (edges G)])
       [0..<length (nodes G)]"

definition leaving :: "graph \<Rightarrow> nat \<Rightarrow> nat list" where
  "leaving G s = filter (\<lambda>k. from_node (edges G ! k) = int s) [0..<length (edges G)]"

subsection \<open>Invariants of a run\<close>


definition set_flows :: "graph \<Rightarrow> nat \<Rightarrow> real \<Rightarrow> real \<Rightarrow> edge list" where
  "set_flows G k a b =
     (edges G)[k := (edges G ! k)\<lparr>flow := a\<rparr>,
               twin G k := (edges G ! twin G k)\<lparr>flow := b\<rparr>]"









subsection \<open>Inputs and runs used as examples\<close>

text \<open>\<open>build n ts\<close> is the graph \<^verbatim>\<open>main\<close> hands to \<^verbatim>\<open>maxFlow\<close> when construction goes
  through. \<open>single_edge\<close> is scenario 1 of the spec (source 0, sink 1) and
  \<open>diamond_edges\<close> scenario 2 (source 0, sink 3). \<open>chain_edges\<close> is the path
  0 \<rightarrow> 1 \<rightarrow> 2 with capacity 5 on both edges, and \<open>chain_state k\<close> the state of
  \<^verbatim>\<open>maxFlow\<close> on it (source 0, sink 2) after \<open>k\<close> rounds of the loop. \<open>loop_edges\<close> has a
  self-loop at node 0 and two parallel edges from 0 to 1. \<open>pit_edges\<close> has positive
  capacities on five nodes (source 0, sink 4); \<open>pit_state k\<close> is the state of
  \<^verbatim>\<open>maxFlow\<close> on it after \<open>k\<close> rounds.\<close>

definition build :: "nat \<Rightarrow> (int \<times> int \<times> real) list \<Rightarrow> graph" where
  "build n ts = projr (buildGraph (newGraph n) ts)"





definition loop_edges :: "(int \<times> int \<times> real) list" where
  "loop_edges = [(0, 0, 5), (0, 1, 3), (0, 1, 4)]"

definition pit_edges :: "(int \<times> int \<times> real) list" where
  "pit_edges = [(0, 1, 1), (0, 1, 1), (0, 1, 1), (1, 2, 3), (1, 3, 5), (2, 4, 3)]"

definition pit_state :: "nat \<Rightarrow> graph \<times> queue" where
  "pit_state k = rounds k 0 4 (initPreflow (build 5 pit_edges) 0 (newQueue 5))"

section \<open>Lemmas\<close>

subsection \<open>The queue is a FIFO\<close>

lemma fold_copy:
  "k \<le> n \<Longrightarrow> length a = n \<Longrightarrow>
   fold (\<lambda>i b. b[i + n := b ! i]) [0..<k] (a @ replicate n (0::int)) = a @ take k a @ replicate (n - k) 0"
proof (induction k)
  case 0
  then show ?case by simp
next
  case (Suc k)
  then have k: "k < n" by simp
  have r: "replicate (n - k) (0::int) = 0 # replicate (n - Suc k) 0"
    using k by (metis Suc_diff_Suc replicate_Suc)
  have "fold (\<lambda>i b. b[i + n := b ! i]) [0..<Suc k] (a @ replicate n 0)
        = (a @ take k a @ replicate (n - k) 0)[k + n := (a @ take k a @ replicate (n - k) 0) ! k]"
    using Suc by simp
  also have "\<dots> = a @ take k a @ (a ! k) # replicate (n - Suc k) 0"
    using Suc.prems k by (simp add: r list_update_append nth_append)
  also have "\<dots> = a @ take (Suc k) a @ replicate (n - Suc k) 0"
    using Suc.prems k by (simp add: take_Suc_conv_app_nth)
  finally show ?case .
qed

lemma qlist_newQueue: "qlist (newQueue n) = []"
  by (simp add: qlist_def newQueue_def)

lemma qinv_newQueue: "0 < n \<Longrightarrow> qinv (newQueue n)"
  by (simp add: qinv_def newQueue_def)



lemma take_Suc_update: "k < length ys \<Longrightarrow> take (Suc k) (ys[k := x]) = take k ys @ [x]"
  by (simp add: take_Suc_conv_app_nth)

lemma enqueue_qlist:
  assumes "qinv Q"
  shows "qinv (enqueue Q x) \<and> qlist (enqueue Q x) = qlist Q @ [x]"
proof -
  let ?a = "qarray Q" and ?f = "qfront Q" and ?b = "qback Q" and ?n = "qsize Q"
  let ?a' = "?a[?b := x]"
  let ?b' = "(?b + 1) mod ?n"
  from assms have n: "0 < ?n" "length ?a = ?n" "?f < ?n" "?b < ?n" by (simp_all add: qinv_def)
  have tk: "take (Suc ?b) ?a' = take ?b ?a @ [x]"
    using n by (simp add: take_Suc_update)
  have dr: "drop ?f ?a' = (drop ?f ?a)[?b - ?f := x]" if "?f \<le> ?b"
    using that by (simp add: drop_update_swap)
  have tkd: "take (Suc (?b - ?f)) (drop ?f ?a') = take (?b - ?f) (drop ?f ?a) @ [x]" if "?f \<le> ?b"
    using that n by (simp add: dr take_Suc_update)
  show ?thesis
  proof (cases "?b' = ?f")
    case False
    then have e: "enqueue Q x = Q\<lparr>qarray := ?a', qback := ?b'\<rparr>"
      by (simp add: enqueue_def Let_def)
    have i: "qinv (enqueue Q x)" using n by (simp add: e qinv_def)
    have "qlist (enqueue Q x) = qlist Q @ [x]"
    proof (cases "?b + 1 < ?n")
      case True
      then have b': "Suc ?b mod ?n = Suc ?b" by simp
      show ?thesis
      proof (cases "?f \<le> ?b")
        case True
        then show ?thesis using tkd by (simp add: e b' qlist_def Suc_diff_le)
      next
        case False
        then show ?thesis using \<open>?b' \<noteq> ?f\<close> tk n by (simp add: e b' qlist_def)
      qed
    next
      case False
      then have b1: "Suc ?b = ?n" using n by simp
      then have b': "Suc ?b mod ?n = 0" by simp
      have f0: "0 < ?f" using \<open>?b' \<noteq> ?f\<close> b' by simp
      have fb: "?f \<le> ?b" using n b1 by simp
      have "length (drop ?f ?a') = Suc (?b - ?f)" using n b1 fb by simp
      then have "drop ?f ?a' = take (Suc (?b - ?f)) (drop ?f ?a')" by simp
      then have "drop ?f ?a' = take (?b - ?f) (drop ?f ?a) @ [x]"
        using tkd fb by simp
      then show ?thesis using f0 fb by (simp add: e b' qlist_def)
    qed
    with i show ?thesis by simp
  next
    case True
    let ?arr = "?a' @ take ?f ?a' @ replicate (?n - ?f) 0"
    have fc: "fold (\<lambda>i b. b[i + ?n := b ! i]) [0..<?f] (?a' @ replicate ?n 0) = ?arr"
      using n by (intro fold_copy) simp_all
    have e: "enqueue Q x = Q\<lparr>qarray := ?arr, qback := ?f + ?n, qsize := 2 * ?n\<rparr>"
      using True fc by (simp add: enqueue_def doubleQueueSize_def Let_def)
    have i: "qinv (enqueue Q x)" using n by (simp add: e qinv_def)
    have "take ?n (drop ?f ?arr) = drop ?f ?a' @ take ?f ?a'"
      using n by simp
    then have ql: "qlist (enqueue Q x) = drop ?f ?a' @ take ?f ?a'"
      by (simp add: e qlist_def)
    have "drop ?f ?a' @ take ?f ?a' = qlist Q @ [x]"
    proof (cases "?f \<le> ?b")
      case True
      have "\<not> ?b + 1 < ?n" using True \<open>?b' = ?f\<close> by auto
      then have b1: "Suc ?b = ?n" using n by simp
      then have f0: "?f = 0" using \<open>?b' = ?f\<close> by simp
      have "length ?a' = Suc ?b" using n b1 by simp
      then have "?a' = take (Suc ?b) ?a'" by simp
      then have "?a' = take ?b ?a @ [x]" using tk by simp
      then show ?thesis using f0 by (simp add: qlist_def)
    next
      case False
      then have "?b + 1 < ?n" using n by simp
      then have f: "?f = Suc ?b" using \<open>?b' = ?f\<close> by simp
      then show ?thesis using tk False by (simp add: qlist_def)
    qed
    with i ql show ?thesis by simp
  qed
qed


subsection \<open>Graph construction\<close>

lemma build_round:
  assumes "0 \<le> u" "u < int (length (nodes G))" "0 \<le> v" "v < int (length (nodes G))"
  shows "buildGraph G ((u, v, c) # ts) = buildGraph (addPair G u v c) ts"
  using assms
  by (simp add: addEdge_def linkTwins_def addPair_def Let_def nth_append list_update_append)

lemma build_round_fail:
  assumes "\<not> (0 \<le> u \<and> u < int (length (nodes G)) \<and> 0 \<le> v \<and> v < int (length (nodes G)))"
  shows "buildGraph G ((u, v, c) # ts) = Inl OutOfBounds"
  using assms
  by (auto simp add: addEdge_def Let_def)

lemma length_nodes_addPair: "length (nodes (addPair G u v c)) = length (nodes G)"
  by (simp add: addPair_def Let_def)

lemma length_edges_addPair: "length (edges (addPair G u v c)) = length (edges G) + 2"
  by (simp add: addPair_def Let_def)

lemma node_addPair:
  assumes "i < length (nodes G)"
  shows "nodes (addPair G u v c) ! i =
     (nodes G ! i)\<lparr>adj := adj (nodes G ! i) @ (if i = nat u then [length (edges G)] else [])
                        @ (if i = nat v then [Suc (length (edges G))] else [])\<rparr>"
  using assms by (simp add: addPair_def Let_def nth_list_update)

lemma edge_addPair_old:
  "k < length (edges G) \<Longrightarrow> edges (addPair G u v c) ! k = edges G ! k"
  by (simp add: addPair_def Let_def nth_append)

lemma edge_addPair_fst:
  "edges (addPair G u v c) ! length (edges G) =
     \<lparr>from_node = u, to_node = v, cap = c, flow = 0, reverse = False, rev_edge = Some (Suc (length (edges G)))\<rparr>"
  by (simp add: addPair_def Let_def nth_append)

lemma edge_addPair_snd:
  "edges (addPair G u v c) ! Suc (length (edges G)) =
     \<lparr>from_node = v, to_node = u, cap = 0, flow = 0, reverse = True, rev_edge = Some (length (edges G))\<rparr>"
  by (simp add: addPair_def Let_def nth_append)

lemma wf_addPair:
  assumes wf: "wf_graph G"
    and r: "0 \<le> u" "u < int (length (nodes G))" "0 \<le> v" "v < int (length (nodes G))"
  shows "wf_graph (addPair G u v c)"
proof -
  let ?G = "addPair G u v c" and ?m = "length (edges G)"
  have e: "wf_edge ?G k" if "k < length (edges ?G)" for k
  proof -
    have "k < ?m \<or> k = ?m \<or> k = Suc ?m"
      using that by (simp add: length_edges_addPair) arith
    then consider "k < ?m" | "k = ?m" | "k = Suc ?m" by blast
    then show ?thesis
    proof cases
      case 1
      then have w: "wf_edge G k" using wf by (simp add: wf_graph_def)
      then have t: "twin G k < ?m" by (simp add: wf_edge_def Let_def)
      have tw: "twin ?G k = twin G k" using 1 by (simp add: twin_def edge_addPair_old)
      have tw2: "twin ?G (twin G k) = twin G (twin G k)" using t by (simp add: twin_def edge_addPair_old)
      show ?thesis using w 1 t
        by (simp add: wf_edge_def Let_def tw tw2 edge_addPair_old length_nodes_addPair length_edges_addPair)
    next
      case 2
      then show ?thesis using r
        by (simp add: wf_edge_def Let_def twin_def edge_addPair_fst edge_addPair_snd
            length_nodes_addPair length_edges_addPair)
    next
      case 3
      then show ?thesis using r
        by (simp add: wf_edge_def Let_def twin_def edge_addPair_fst edge_addPair_snd
            length_nodes_addPair length_edges_addPair)
    qed
  qed
  have n: "wf_node ?G i" if "i < length (nodes ?G)" for i
  proof -
    have i: "i < length (nodes G)" using that by (simp add: length_nodes_addPair)
    then have w: "wf_node G i" using wf by (simp add: wf_graph_def)
    then have lt: "\<forall>k \<in> set (adj (nodes G ! i)). k < ?m" by (simp add: wf_node_def Let_def)
    then have "?m \<notin> set (adj (nodes G ! i))" "Suc ?m \<notin> set (adj (nodes G ! i))" by auto
    moreover have lt': "k < Suc (Suc ?m)" if "k \<in> set (adj (nodes G ! i))" for k
      using lt that by (simp add: less_SucI)
    ultimately show ?thesis using w i r lt
      by (auto simp: wf_node_def Let_def node_addPair length_edges_addPair
          edge_addPair_old edge_addPair_fst edge_addPair_snd lt')
  qed
  show ?thesis using e n by (simp add: wf_graph_def)
qed

lemma fresh_addPair:
  assumes "fresh_graph G" "0 \<le> u" "u < int (length (nodes G))" "0 \<le> v" "v < int (length (nodes G))"
  shows "fresh_graph (addPair G u v c)"
proof -
  have "excess x = 0 \<and> height x = 0 \<and> adjIdx x = 0" if "x \<in> set (nodes (addPair G u v c))" for x
  proof -
    from that obtain i where i: "i < length (nodes G)" "x = nodes (addPair G u v c) ! i"
      by (metis in_set_conv_nth length_nodes_addPair)
    then have "nodes G ! i \<in> set (nodes G)" by simp
    then show ?thesis using assms(1) i by (simp add: node_addPair fresh_graph_def)
  qed
  moreover have "\<forall>e \<in> set (edges (addPair G u v c)). flow e = 0"
    using assms(1) by (auto simp: addPair_def Let_def fresh_graph_def)
  ultimately show ?thesis by (simp add: fresh_graph_def)
qed

lemma wf_newGraph: "wf_graph (newGraph n)"
  by (simp add: wf_graph_def wf_node_def newGraph_def newNode_def)

lemma fresh_newGraph: "fresh_graph (newGraph n)"
  by (auto simp: fresh_graph_def newGraph_def newNode_def)

lemma buildGraph_ok:
  "ids_ok (length (nodes G)) ts \<Longrightarrow> wf_graph G \<Longrightarrow> fresh_graph G \<Longrightarrow>
   \<exists>G'. buildGraph G ts = Inr G' \<and> wf_graph G' \<and> fresh_graph G'
        \<and> length (nodes G') = length (nodes G)
        \<and> map cap (edges G') = map cap (edges G) @ concat (map (\<lambda>(u, v, c). [c, 0]) ts)"
proof (induction ts arbitrary: G)
  case Nil
  then show ?case by simp
next
  case (Cons a ts)
  obtain u v c where a: "a = (u, v, c)" by (cases a)
  from Cons.prems a have r: "0 \<le> u" "u < int (length (nodes G))" "0 \<le> v" "v < int (length (nodes G))"
    and rest: "ids_ok (length (nodes (addPair G u v c))) ts"
    by (simp_all add: ids_ok_def length_nodes_addPair)
  from Cons.IH[OF rest wf_addPair[OF Cons.prems(2) r] fresh_addPair[OF Cons.prems(3) r]]
  obtain G' where "buildGraph (addPair G u v c) ts = Inr G'" "wf_graph G'" "fresh_graph G'"
    "length (nodes G') = length (nodes (addPair G u v c))"
    "map cap (edges G') = map cap (edges (addPair G u v c)) @ concat (map (\<lambda>(u, v, c). [c, 0]) ts)"
    by blast
  moreover have "buildGraph G (a # ts) = buildGraph (addPair G u v c) ts"
    unfolding a using r by (rule build_round)
  moreover have "map cap (edges (addPair G u v c)) = map cap (edges G) @ [c, 0]"
    by (simp add: addPair_def Let_def)
  ultimately show ?case using a
    by (simp add: length_nodes_addPair del: buildGraph.simps)
qed

lemma buildGraph_bad:
  "\<not> ids_ok (length (nodes G)) ts \<Longrightarrow> buildGraph G ts = Inl OutOfBounds"
proof (induction ts arbitrary: G)
  case Nil
  then show ?case by (simp add: ids_ok_def)
next
  case (Cons a ts)
  obtain u v c where a: "a = (u, v, c)" by (cases a)
  show ?case
  proof (cases "0 \<le> u \<and> u < int (length (nodes G)) \<and> 0 \<le> v \<and> v < int (length (nodes G))")
    case True
    then have "\<not> ids_ok (length (nodes (addPair G u v c))) ts"
      using Cons.prems a by (simp add: ids_ok_def length_nodes_addPair)
    moreover have "buildGraph G (a # ts) = buildGraph (addPair G u v c) ts"
      unfolding a using True by (intro build_round) simp_all
    ultimately show ?thesis using Cons.IH by simp
  next
    case False
    then show ?thesis unfolding a by (rule build_round_fail)
  qed
qed

subsection \<open>Shape, cursor and the scan of push\<close>

lemma map_update_same: "f y = f (xs ! k) \<Longrightarrow> map f (xs[k := y]) = map f xs"
  by (cases "k < length xs") (simp_all add: map_update list_update_beyond list_update_same_conv)

lemma same_shape_refl: "same_shape G G"
  by (simp add: same_shape_def)

lemma same_shape_trans: "same_shape G G' \<Longrightarrow> same_shape G' G'' \<Longrightarrow> same_shape G G''"
  by (simp add: same_shape_def)

lemma same_shape_length:
  assumes "same_shape G G'"
  shows "length (edges G') = length (edges G)" "length (nodes G') = length (nodes G)"
  using assms map_eq_imp_length_eq unfolding same_shape_def by blast+

lemma same_shape_edge:
  assumes "same_shape G G'" "k < length (edges G)"
  shows "from_node (edges G' ! k) = from_node (edges G ! k)"
    "to_node (edges G' ! k) = to_node (edges G ! k)"
    "cap (edges G' ! k) = cap (edges G ! k)"
    "reverse (edges G' ! k) = reverse (edges G ! k)"
    "rev_edge (edges G' ! k) = rev_edge (edges G ! k)"
proof -
  have "map edge_static (edges G') ! k = map edge_static (edges G) ! k"
    using assms by (simp add: same_shape_def)
  then have e: "edge_static (edges G' ! k) = edge_static (edges G ! k)"
    using assms same_shape_length(1)[OF assms(1)] by simp
  have "from_node (edge_static (edges G' ! k)) = from_node (edge_static (edges G ! k))"
    "to_node (edge_static (edges G' ! k)) = to_node (edge_static (edges G ! k))"
    "cap (edge_static (edges G' ! k)) = cap (edge_static (edges G ! k))"
    "reverse (edge_static (edges G' ! k)) = reverse (edge_static (edges G ! k))"
    "rev_edge (edge_static (edges G' ! k)) = rev_edge (edge_static (edges G ! k))"
    using e by simp_all
  then show "from_node (edges G' ! k) = from_node (edges G ! k)"
    "to_node (edges G' ! k) = to_node (edges G ! k)"
    "cap (edges G' ! k) = cap (edges G ! k)"
    "reverse (edges G' ! k) = reverse (edges G ! k)"
    "rev_edge (edges G' ! k) = rev_edge (edges G ! k)"
    by (simp_all add: edge_static_def)
qed

lemma same_shape_twin:
  "same_shape G G' \<Longrightarrow> k < length (edges G) \<Longrightarrow> twin G' k = twin G k"
  by (simp add: twin_def same_shape_edge)

lemma same_shape_node:
  assumes "same_shape G G'" "i < length (nodes G)"
  shows "node_id (nodes G' ! i) = node_id (nodes G ! i)" "adj (nodes G' ! i) = adj (nodes G ! i)"
proof -
  have "map node_static (nodes G') ! i = map node_static (nodes G) ! i"
    using assms by (simp add: same_shape_def)
  then have e: "node_static (nodes G' ! i) = node_static (nodes G ! i)"
    using assms same_shape_length(2)[OF assms(1)] by simp
  have "node_id (node_static (nodes G' ! i)) = node_id (node_static (nodes G ! i))"
    "adj (node_static (nodes G' ! i)) = adj (node_static (nodes G ! i))"
    using e by simp_all
  then show "node_id (nodes G' ! i) = node_id (nodes G ! i)" "adj (nodes G' ! i) = adj (nodes G ! i)"
    by (simp_all add: node_static_def)
qed

lemma wf_graph_shape:
  assumes s: "same_shape G G'" and wf: "wf_graph G"
  shows "wf_graph G'"
proof -
  note len = same_shape_length[OF s]
  have "wf_edge G' k" if "k < length (edges G')" for k
  proof -
    have k: "k < length (edges G)" using that len by simp
    then have w: "wf_edge G k" using wf by (simp add: wf_graph_def)
    then have t: "twin G k < length (edges G)" by (simp add: wf_edge_def Let_def)
    show ?thesis using w
      by (simp add: wf_edge_def Let_def same_shape_twin[OF s k] same_shape_twin[OF s t]
          same_shape_edge[OF s k] same_shape_edge[OF s t] len)
  qed
  moreover have "wf_node G' i" if "i < length (nodes G')" for i
  proof -
    have i: "i < length (nodes G)" using that len by simp
    then have w: "wf_node G i" using wf by (simp add: wf_graph_def)
    then have "\<forall>k \<in> set (adj (nodes G ! i)). k < length (edges G)" by (simp add: wf_node_def Let_def)
    then show ?thesis using w
      by (auto simp: wf_node_def Let_def same_shape_node[OF s i] same_shape_edge[OF s] len)
  qed
  ultimately show ?thesis by (simp add: wf_graph_def)
qed





lemma node_id_setAdjIdx: "node_id (nodes (setAdjIdx G u i) ! v) = node_id (nodes G ! v)"
  by (cases "u < length (nodes G)"; cases "v = u")
     (simp_all add: setAdjIdx_def list_update_beyond)






subsection \<open>Flow updates on an edge and its twin\<close>


lemma wf_edgeD:
  assumes "wf_graph G" "k < length (edges G)"
  shows "twin G k < length (edges G)" "twin G k \<noteq> k" "twin G (twin G k) = k"
    "0 \<le> to_node (edges G ! k)" "to_node (edges G ! k) < int (length (nodes G))"
    "0 \<le> from_node (edges G ! k)" "from_node (edges G ! k) < int (length (nodes G))"
    "from_node (edges G ! twin G k) = to_node (edges G ! k)"
    "to_node (edges G ! twin G k) = from_node (edges G ! k)"
    "reverse (edges G ! twin G k) = (\<not> reverse (edges G ! k))"
  using assms by (simp_all add: wf_graph_def wf_edge_def Let_def)

lemma wf_nodeD:
  assumes "wf_graph G" "i < length (nodes G)"
  shows "node_id (nodes G ! i) = int i" "distinct (adj (nodes G ! i))"
    "k \<in> set (adj (nodes G ! i)) \<Longrightarrow> k < length (edges G)"
    "k \<in> set (adj (nodes G ! i)) \<Longrightarrow> from_node (edges G ! k) = int i"
  using assms by (simp_all add: wf_graph_def wf_node_def Let_def)

lemma to_node_nat:
  assumes "wf_graph G" "k < length (edges G)"
  shows "nat (to_node (edges G ! k)) < length (nodes G)"
    "int (nat (to_node (edges G ! k))) = to_node (edges G ! k)"
  using wf_edgeD(4,5)[OF assms] by simp_all


lemma nth_set_flows:
  assumes "wf_graph G" "k < length (edges G)" "j < length (edges G)"
  shows "set_flows G k a b ! j =
     (if j = twin G k then (edges G ! j)\<lparr>flow := b\<rparr>
      else if j = k then (edges G ! j)\<lparr>flow := a\<rparr> else edges G ! j)"
  using assms wf_edgeD(1,2)[OF assms(1,2)] by (simp add: set_flows_def nth_list_update)

lemma flow_set_flows:
  assumes "wf_graph G" "k < length (edges G)" "j < length (edges G)"
  shows "flow (set_flows G k a b ! j) =
     (if j = twin G k then b else if j = k then a else flow (edges G ! j))"
  by (simp add: nth_set_flows[OF assms])

lemma map_update_same2:
  assumes "f y = f (xs ! k)" "f z = f (xs ! r)"
  shows "map f (xs[k := y, r := z]) = map f xs"
proof -
  have "map f (xs[k := y, r := z]) = (map f (xs[k := y]))[r := f z]"
    by (simp add: map_update)
  also have "\<dots> = (map f xs)[r := f (xs ! r)]"
    using assms by (simp add: map_update_same)
  also have "\<dots> = map f (xs[r := xs ! r])"
    by (simp only: map_update)
  also have "\<dots> = map f xs"
    by simp
  finally show ?thesis .
qed

lemma static_set_flows: "map edge_static (set_flows G k a b) = map edge_static (edges G)"
  by (simp add: set_flows_def map_update_same2 edge_static_def)





lemma nodes_pushAlong:
  "nodes (fst (pushAlong G u k Q)) =
     (let d = pushDelta G u k; w = nat (to_node (edges G ! k));
          ns1 = (nodes G)[u := (nodes G ! u)\<lparr>excess := excess (nodes G ! u) - d\<rparr>]
      in ns1[w := (ns1 ! w)\<lparr>excess := excess (ns1 ! w) + d\<rparr>])"
  by (simp add: pushAlong_def Let_def pushDelta_def residual_def)




lemma height_pushAlong: "map height (nodes (fst (pushAlong G u k Q))) = map height (nodes G)"
  by (simp add: nodes_pushAlong Let_def map_update_same)



lemma edges_saturate:
  assumes "wf_graph G" "k < length (edges G)"
  shows "edges (fst (saturate k (G, Q))) = set_flows G k (cap (edges G ! k)) (- cap (edges G ! k))"
  using wf_edgeD(1,2)[OF assms]
  by (simp add: saturate_def Let_def set_flows_def twin_def)

lemma nodes_saturate:
  "nodes (fst (saturate k (G, Q))) =
     (let w = nat (to_node (edges G ! k))
      in (nodes G)[w := (nodes G ! w)\<lparr>excess := excess (nodes G ! w) + cap (edges G ! k)\<rparr>])"
  by (simp add: saturate_def Let_def)

lemma queue_saturate: "snd (saturate k (G, Q)) = enqueue Q (to_node (edges G ! k))"
  by (simp add: saturate_def Let_def)

lemma same_shape_saturate:
  assumes "wf_graph G" "k < length (edges G)"
  shows "same_shape G (fst (saturate k (G, Q)))"
  by (simp add: same_shape_def edges_saturate[OF assms] static_set_flows nodes_saturate
      Let_def map_update_same node_static_def)

lemma height_saturate: "map height (nodes (fst (saturate k (G, Q)))) = map height (nodes G)"
  by (simp add: nodes_saturate Let_def map_update_same)



subsection \<open>Skew symmetry along a run\<close>



lemma built_graph:
  assumes "buildGraph (newGraph n) ts = Inr G"
  shows "ids_ok n ts" "wf_graph G" "fresh_graph G" "length (nodes G) = n"
    "map cap (edges G) = concat (map (\<lambda>(u, v, c). [c, 0]) ts)"
proof -
  have n: "length (nodes (newGraph n)) = n" by (simp add: newGraph_def)
  show ok: "ids_ok n ts"
    using assms buildGraph_bad[of "newGraph n" ts] by (auto simp: n)
  from buildGraph_ok[OF _ wf_newGraph fresh_newGraph, of n ts] ok
  obtain G' where "buildGraph (newGraph n) ts = Inr G'" "wf_graph G'" "fresh_graph G'"
    "length (nodes G') = n" "map cap (edges G') = concat (map (\<lambda>(u, v, c). [c, 0]) ts)"
    by (auto simp: newGraph_def)
  then show "wf_graph G" "fresh_graph G" "length (nodes G) = n"
    "map cap (edges G) = concat (map (\<lambda>(u, v, c). [c, 0]) ts)"
    using assms by simp_all
qed
















lemma same_shape_set_height:
  "same_shape G (G\<lparr>nodes := (nodes G)[s := (nodes G ! s)\<lparr>height := h\<rparr>]\<rparr>)"
  by (simp add: same_shape_def map_update_same node_static_def)



subsection \<open>Adjacency lists of a constructed graph\<close>




lemma adj_exact_iff:
  "adj_exact G \<longleftrightarrow> (\<forall>i < length (nodes G). adj (nodes G ! i)
       = filter (\<lambda>k. from_node (edges G ! k) = int i) [0..<length (edges G)])"
  by (auto simp: adj_exact_def list_all_iff)

lemma adj_exact_newGraph: "adj_exact (newGraph n)"
  by (simp add: adj_exact_iff newGraph_def newNode_def)

lemma filter_upt_cong:
  "(\<And>k. k < m \<Longrightarrow> P k = Q k) \<Longrightarrow> filter P [0..<m] = filter Q [0..<m]"
  by (rule filter_cong) auto

lemma adj_exact_addPair:
  assumes a: "adj_exact G"
    and r: "0 \<le> u" "u < int (length (nodes G))" "0 \<le> v" "v < int (length (nodes G))"
  shows "adj_exact (addPair G u v c)"
proof -
  let ?G = "addPair G u v c" and ?m = "length (edges G)"
  have "adj (nodes ?G ! i) = filter (\<lambda>k. from_node (edges ?G ! k) = int i) [0..<length (edges ?G)]"
    if i: "i < length (nodes ?G)" for i
  proof -
    have i': "i < length (nodes G)" using i by (simp add: length_nodes_addPair)
    have old: "filter (\<lambda>k. from_node (edges ?G ! k) = int i) [0..<?m]
               = filter (\<lambda>k. from_node (edges G ! k) = int i) [0..<?m]"
      by (rule filter_upt_cong) (simp add: edge_addPair_old)
    have "[0..<length (edges ?G)] = [0..<?m] @ [?m, Suc ?m]"
      by (simp add: length_edges_addPair)
    then have "filter (\<lambda>k. from_node (edges ?G ! k) = int i) [0..<length (edges ?G)]
        = filter (\<lambda>k. from_node (edges G ! k) = int i) [0..<?m]
          @ (if u = int i then [?m] else []) @ (if v = int i then [Suc ?m] else [])"
      using old by (simp add: edge_addPair_fst edge_addPair_snd)
    moreover have "u = int i \<longleftrightarrow> i = nat u" "v = int i \<longleftrightarrow> i = nat v" using r by auto
    ultimately show ?thesis using a i' by (simp add: node_addPair adj_exact_iff)
  qed
  then show ?thesis by (simp add: adj_exact_iff)
qed

lemma buildGraph_adj_exact:
  "ids_ok (length (nodes G)) ts \<Longrightarrow> adj_exact G \<Longrightarrow> buildGraph G ts = Inr G' \<Longrightarrow> adj_exact G'"
proof (induction ts arbitrary: G)
  case Nil
  then show ?case by simp
next
  case (Cons a ts)
  obtain u v c where a: "a = (u, v, c)" by (cases a)
  from Cons.prems a have r: "0 \<le> u" "u < int (length (nodes G))" "0 \<le> v" "v < int (length (nodes G))"
    and rest: "ids_ok (length (nodes (addPair G u v c))) ts"
    by (simp_all add: ids_ok_def length_nodes_addPair)
  have "buildGraph G (a # ts) = buildGraph (addPair G u v c) ts"
    unfolding a using r by (rule build_round)
  then show ?case using Cons.IH[OF rest adj_exact_addPair[OF Cons.prems(2) r]] Cons.prems(3) by simp
qed

lemma built_adj_exact:
  assumes "buildGraph (newGraph n) ts = Inr G"
  shows "adj_exact G"
  using buildGraph_adj_exact[OF _ adj_exact_newGraph assms] built_graph(1)[OF assms]
  by (simp add: newGraph_def)

subsection \<open>The saturation loop of initPreflow\<close>

lemma excess_saturate:
  assumes "wf_graph G" "k < length (edges G)" "v < length (nodes G)"
  shows "excess (nodes (fst (saturate k (G, Q))) ! v) =
     excess (nodes G ! v) + (if to_node (edges G ! k) = int v then cap (edges G ! k) else 0)"
proof -
  have "to_node (edges G ! k) = int v \<longleftrightarrow> v = nat (to_node (edges G ! k))"
    using wf_edgeD(4)[OF assms(1,2)] by auto
  then show ?thesis
    using assms(3) to_node_nat(1)[OF assms(1,2)]
    by (simp add: nodes_saturate Let_def nth_list_update)
qed

lemma flow_saturate:
  assumes "wf_graph G" "k < length (edges G)" "j < length (edges G)"
  shows "flow (edges (fst (saturate k (G, Q))) ! j) =
     (if j = twin G k then - cap (edges G ! k) else if j = k then cap (edges G ! k)
      else flow (edges G ! j))"
  by (simp add: edges_saturate[OF assms(1,2)] flow_set_flows[OF assms])

lemma fold_saturate_untouched:
  "wf_graph G \<Longrightarrow> \<forall>k \<in> set ks. k < length (edges G) \<Longrightarrow> j < length (edges G) \<Longrightarrow>
   j \<notin> set ks \<Longrightarrow> twin G j \<notin> set ks \<Longrightarrow>
   flow (edges (fst (fold saturate ks (G, Q))) ! j) = flow (edges G ! j)"
proof (induction ks arbitrary: G Q)
  case Nil
  then show ?case by simp
next
  case (Cons k ks)
  obtain G1 Q1 where s: "saturate k (G, Q) = (G1, Q1)" by (cases "saturate k (G, Q)")
  have k: "k < length (edges G)" using Cons.prems(2) by simp
  have sh: "same_shape G G1" using same_shape_saturate[OF Cons.prems(1) k, of Q] s by simp
  have wf1: "wf_graph G1" by (rule wf_graph_shape[OF sh Cons.prems(1)])
  note len = same_shape_length(1)[OF sh]
  have jk: "j \<noteq> k" "twin G j \<noteq> k" using Cons.prems(4,5) by simp_all
  then have "j \<noteq> twin G k" using wf_edgeD(3)[OF Cons.prems(1) k] by auto
  then have f1: "flow (edges G1 ! j) = flow (edges G ! j)"
    using flow_saturate[OF Cons.prems(1) k Cons.prems(3), of Q] s jk by simp
  have "flow (edges (fst (fold saturate ks (G1, Q1))) ! j) = flow (edges G1 ! j)"
    using Cons.prems wf1 len same_shape_twin[OF sh Cons.prems(3)]
    by (intro Cons.IH) simp_all
  then show ?case using s f1 by simp
qed

lemma fold_saturate_result:
  "wf_graph G \<Longrightarrow> qinv Q \<Longrightarrow> distinct ks \<Longrightarrow>
   \<forall>k \<in> set ks. k < length (edges G) \<and> from_node (edges G ! k) = int s \<Longrightarrow>
   (let G' = fst (fold saturate ks (G, Q)); Q' = snd (fold saturate ks (G, Q)) in
      same_shape G G' \<and> qinv Q'
      \<and> qlist Q' = qlist Q @ map (\<lambda>k. to_node (edges G ! k)) ks
      \<and> map height (nodes G') = map height (nodes G)
      \<and> (\<forall>v < length (nodes G). excess (nodes G' ! v) = excess (nodes G ! v)
            + (\<Sum>k\<leftarrow>ks. if to_node (edges G ! k) = int v then cap (edges G ! k) else 0))
      \<and> (\<forall>k \<in> set ks. to_node (edges G ! k) \<noteq> int s \<longrightarrow>
            flow (edges G' ! k) = cap (edges G ! k)
            \<and> flow (edges G' ! twin G k) = - cap (edges G ! k)))"
proof (induction ks arbitrary: G Q)
  case Nil
  then show ?case by (simp add: same_shape_refl)
next
  case (Cons k ks)
  obtain G1 Q1 where s: "saturate k (G, Q) = (G1, Q1)" by (cases "saturate k (G, Q)")
  let ?G' = "fst (fold saturate ks (G1, Q1))" and ?Q' = "snd (fold saturate ks (G1, Q1))"
  have k: "k < length (edges G)" "from_node (edges G ! k) = int s" using Cons.prems(4) by simp_all
  have sh: "same_shape G G1" using same_shape_saturate[OF Cons.prems(1) k(1), of Q] s by simp
  have wf1: "wf_graph G1" by (rule wf_graph_shape[OF sh Cons.prems(1)])
  note len = same_shape_length[OF sh]
  have q1: "qinv Q1" "qlist Q1 = qlist Q @ [to_node (edges G ! k)]"
    using enqueue_qlist[OF Cons.prems(2)] s queue_saturate[of k G Q] by simp_all
  have st: "to_node (edges G1 ! j) = to_node (edges G ! j)" "cap (edges G1 ! j) = cap (edges G ! j)"
    "from_node (edges G1 ! j) = from_node (edges G ! j)" "twin G1 j = twin G j"
    if "j < length (edges G)" for j
    using same_shape_edge[OF sh that] same_shape_twin[OF sh that] by simp_all
  have ks: "\<forall>j \<in> set ks. j < length (edges G)" using Cons.prems(4) by simp
  have pre: "\<forall>j \<in> set ks. j < length (edges G1) \<and> from_node (edges G1 ! j) = int s"
    using Cons.prems(4) st len by simp
  have d: "distinct ks" "k \<notin> set ks" using Cons.prems(3) by simp_all
  from Cons.IH[OF wf1 q1(1) d(1) pre]
  have ih: "same_shape G1 ?G'" "qinv ?Q'"
    "qlist ?Q' = qlist Q1 @ map (\<lambda>k. to_node (edges G1 ! k)) ks"
    "map height (nodes ?G') = map height (nodes G1)"
    "\<forall>v < length (nodes G1). excess (nodes ?G' ! v) = excess (nodes G1 ! v)
        + (\<Sum>k\<leftarrow>ks. if to_node (edges G1 ! k) = int v then cap (edges G1 ! k) else 0)"
    "\<forall>j \<in> set ks. to_node (edges G1 ! j) \<noteq> int s \<longrightarrow>
        flow (edges ?G' ! j) = cap (edges G1 ! j) \<and> flow (edges ?G' ! twin G1 j) = - cap (edges G1 ! j)"
    by (simp_all add: Let_def)
  have m1: "map (\<lambda>k. to_node (edges G1 ! k)) ks = map (\<lambda>k. to_node (edges G ! k)) ks"
    using ks st by simp
  have m2: "(\<Sum>k\<leftarrow>ks. if to_node (edges G1 ! k) = int v then cap (edges G1 ! k) else 0)
       = (\<Sum>k\<leftarrow>ks. if to_node (edges G ! k) = int v then cap (edges G ! k) else 0)" for v
    using ks st by (intro arg_cong[where f = sum_list] map_cong) simp_all
  have a: "same_shape G ?G'" by (rule same_shape_trans[OF sh ih(1)])
  have b: "qlist ?Q' = qlist Q @ map (\<lambda>k. to_node (edges G ! k)) (k # ks)"
    using ih(3) q1(2) m1 by simp
  have c: "map height (nodes ?G') = map height (nodes G)"
    using ih(4) height_saturate[of k G Q] s by simp
  have e: "excess (nodes ?G' ! v) = excess (nodes G ! v)
        + (\<Sum>k\<leftarrow>k # ks. if to_node (edges G ! k) = int v then cap (edges G ! k) else 0)"
    if v: "v < length (nodes G)" for v
    using ih(5) v len excess_saturate[OF Cons.prems(1) k(1) v, of Q] s m2 by simp
  have f: "flow (edges ?G' ! j) = cap (edges G ! j) \<and> flow (edges ?G' ! twin G j) = - cap (edges G ! j)"
    if j: "j \<in> set (k # ks)" "to_node (edges G ! j) \<noteq> int s" for j
  proof (cases "j = k")
    case False
    then have "j \<in> set ks" using j by simp
    then show ?thesis using ih(6) j(2) st ks by simp
  next
    case True
    note t = wf_edgeD(1,2,3,8,9)[OF Cons.prems(1) k(1)]
    have nt: "twin G k \<notin> set ks"
    proof
      assume "twin G k \<in> set ks"
      then have "from_node (edges G ! twin G k) = int s" using Cons.prems(4) by simp
      then show False using t(4) j(2) True by simp
    qed
    have u1: "flow (edges ?G' ! k) = flow (edges G1 ! k)"
      using ks len st[OF k(1)] d(2) nt k(1)
      by (intro fold_saturate_untouched[OF wf1]) simp_all
    have u2: "flow (edges ?G' ! twin G k) = flow (edges G1 ! twin G k)"
      using ks len st[OF t(1)] d(2) nt t
      by (intro fold_saturate_untouched[OF wf1]) simp_all
    show ?thesis
      using u1 u2 flow_saturate[OF Cons.prems(1) k(1) k(1), of Q]
        flow_saturate[OF Cons.prems(1) k(1) t(1), of Q] s t(2) True by simp
  qed
  show ?case using a ih(2) b c e f s by (simp add: Let_def)
qed

subsection \<open>Net flow into a node\<close>








subsection \<open>The preflow invariant along a run\<close>










subsection \<open>From initPreflow to the end of the discharge loop\<close>

















section \<open>The claims\<close>

subsection \<open>The frame of relabel\<close>

text \<open>C10: \<^verbatim>\<open>relabel(G, u, Q)\<close> writes the height of \<open>u\<close> and nothing else. The queue
  comes back as it was given, the edges and the stored flow value are the same, and
  the node list is the old one with one entry replaced, which differs from the old
  entry in its height only.\<close>

theorem relabel_frame:
  "snd (relabel G u Q) = Q
   \<and> edges (fst (relabel G u Q)) = edges G
   \<and> maxFlowVal (fst (relabel G u Q)) = maxFlowVal G
   \<and> nodes (fst (relabel G u Q)) =
       (nodes G)[u := (nodes G ! u)\<lparr>height := height (nodes (fst (relabel G u Q)) ! u)\<rparr>]"
  by (cases "u < length (nodes G)") (simp_all add: relabel_def Let_def list_update_beyond)

subsection \<open>Skew symmetry\<close>



subsection \<open>The effect of initPreflow\<close>

text \<open>C8, as the code has it: on a constructed graph \<^verbatim>\<open>initPreflow(s)\<close> sets height(s) to
  the node count; every edge that leaves \<open>s\<close> for another node ends with its flow at its
  capacity and its twin's flow at the negation; the excess of every node is the sum of
  the capacities of the edges from \<open>s\<close> to it; and the queue receives one entry per edge
  that leaves \<open>s\<close> (the reverse twins of edges into \<open>s\<close> among them), in edge order, so a
  node reached by several such edges is enqueued several times.\<close>

theorem initPreflow_effect:
  assumes "buildGraph (newGraph n) ts = Inr G" and "s < n"
  shows "case initPreflow G s (newQueue n) of (G', Q') \<Rightarrow>
      height (nodes G' ! s) = int n
    \<and> (\<forall>k \<in> set (leaving G s). to_node (edges G ! k) \<noteq> int s \<longrightarrow>
          flow (edges G' ! k) = cap (edges G ! k)
          \<and> flow (edges G' ! twin G k) = - cap (edges G ! k))
    \<and> (\<forall>v < n. excess (nodes G' ! v)
          = (\<Sum>k\<leftarrow>leaving G s. if to_node (edges G ! k) = int v then cap (edges G ! k) else 0))
    \<and> qlist Q' = map (\<lambda>k. to_node (edges G ! k)) (leaving G s)"
proof -
  note b = built_graph[OF assms(1)]
  define G1 where "G1 = G\<lparr>nodes := (nodes G)[s := (nodes G ! s)\<lparr>height := int (length (nodes G))\<rparr>]\<rparr>"
  let ?ks = "adj (nodes G ! s)"
  define F where "F = fold saturate ?ks (G1, newQueue n)"
  have s: "s < length (nodes G)" using b(4) assms(2) by simp
  have ks: "?ks = leaving G s"
    using built_adj_exact[OF assms(1)] s by (simp add: adj_exact_iff leaving_def)
  have sh: "same_shape G G1" unfolding G1_def by (rule same_shape_set_height)
  have wf1: "wf_graph G1" by (rule wf_graph_shape[OF sh b(2)])
  have e1: "edges G1 = edges G" by (simp add: G1_def)
  have n1: "length (nodes G1) = n" using b(4) by (simp add: G1_def)
  have h1: "height (nodes G1 ! s) = int n" using s b(4) by (simp add: G1_def)
  have tw: "twin G1 k = twin G k" for k by (simp add: twin_def e1)
  have pre: "\<forall>k \<in> set ?ks. k < length (edges G1) \<and> from_node (edges G1 ! k) = int s"
    using wf_nodeD(3,4)[OF b(2) s] by (simp add: e1)
  have q: "qinv (newQueue n)" using assms(2) by (simp add: qinv_newQueue)
  have ex0: "excess (nodes G1 ! v) = 0" if "v < n" for v
  proof -
    have "nodes G ! v \<in> set (nodes G)" using that b(4) by simp
    then have "excess (nodes G ! v) = 0" using b(3) by (simp add: fresh_graph_def)
    then show ?thesis using that b(4) by (cases "v = s") (simp_all add: G1_def)
  qed
  from fold_saturate_result[OF wf1 q wf_nodeD(2)[OF b(2) s] pre]
  have r: "same_shape G1 (fst F)"
    "map height (nodes (fst F)) = map height (nodes G1)"
    "qlist (snd F) = qlist (newQueue n) @ map (\<lambda>k. to_node (edges G1 ! k)) ?ks"
    "\<forall>v < length (nodes G1). excess (nodes (fst F) ! v) = excess (nodes G1 ! v)
        + (\<Sum>k\<leftarrow>?ks. if to_node (edges G1 ! k) = int v then cap (edges G1 ! k) else 0)"
    "\<forall>k \<in> set ?ks. to_node (edges G1 ! k) \<noteq> int s \<longrightarrow>
        flow (edges (fst F) ! k) = cap (edges G1 ! k)
        \<and> flow (edges (fst F) ! twin G1 k) = - cap (edges G1 ! k)"
    unfolding F_def Let_def by blast+
  note r = r[unfolded e1 tw n1]
  have "length (nodes (fst F)) = n" using same_shape_length(2)[OF r(1)] n1 by simp
  then have "height (nodes (fst F) ! s) = map height (nodes (fst F)) ! s"
    using assms(2) by simp
  also have "\<dots> = int n" using r(2) n1 h1 assms(2) by simp
  finally have h: "height (nodes (fst F) ! s) = int n" .
  have i: "initPreflow G s (newQueue n) = F" by (simp add: initPreflow_def Let_def F_def G1_def)
  have c2: "\<forall>k \<in> set (leaving G s). to_node (edges G ! k) \<noteq> int s \<longrightarrow>
          flow (edges (fst F) ! k) = cap (edges G ! k)
          \<and> flow (edges (fst F) ! twin G k) = - cap (edges G ! k)"
    using r(5) by (simp add: e1 tw ks)
  have c3: "\<forall>v < n. excess (nodes (fst F) ! v)
          = (\<Sum>k\<leftarrow>leaving G s. if to_node (edges G ! k) = int v then cap (edges G ! k) else 0)"
    using r(4) ex0 by (simp add: e1 n1 ks)
  have c4: "qlist (snd F) = map (\<lambda>k. to_node (edges G ! k)) (leaving G s)"
    using r(3) by (simp add: e1 ks qlist_newQueue)
  show ?thesis
    unfolding i case_prod_unfold using h c2 c3 c4 by blast
qed

theorem initPreflow_effect_witness:
  "buildGraph (newGraph 5) pit_edges = Inr (build 5 pit_edges)
   \<and> leaving (build 5 pit_edges) 0 = [0, 2, 4]
   \<and> height (nodes (fst (initPreflow (build 5 pit_edges) 0 (newQueue 5))) ! 0) = 5
   \<and> qlist (snd (initPreflow (build 5 pit_edges) 0 (newQueue 5))) = [1, 1, 1]
   \<and> excess (nodes (fst (initPreflow (build 5 pit_edges) 0 (newQueue 5))) ! 1) = 3
   \<and> flow (edges (fst (initPreflow (build 5 pit_edges) 0 (newQueue 5))) ! 2) = 1"
proof -
  have b: "buildGraph (newGraph 5) pit_edges = Inr (build 5 pit_edges)"
    by code_simp
  have l: "leaving (build 5 pit_edges) 0 = [0, 2, 4]"
    by code_simp
  have e: "map (\<lambda>k. to_node (edges (build 5 pit_edges) ! k)) [0, 2, 4] = [1, 1, 1]"
    "map (\<lambda>k. cap (edges (build 5 pit_edges) ! k)) [0, 2, 4] = [1, 1, 1]"
    by code_simp+
  show ?thesis
    using b l e initPreflow_effect[OF b, of 0]
    by (simp add: case_prod_unfold)
qed

text \<open>C8 as stated fails on \<^verbatim>\<open>2 0 1 / 0 0 5 / 0 1 3 / 0 1 4\<close>: node 1 is enqueued twice
  (and node 0 twice), and the self-loop of capacity 5 ends with flow 0, because the round
  for its twin, which also leaves node 0, overwrites it.\<close>

theorem initPreflow_enqueues_twice:
  "buildGraph (newGraph 2) loop_edges = Inr (build 2 loop_edges)
   \<and> map from_node (edges (build 2 loop_edges)) = [0, 0, 0, 1, 0, 1]
   \<and> map to_node (edges (build 2 loop_edges)) = [0, 0, 1, 0, 1, 0]
   \<and> map cap (edges (build 2 loop_edges)) = [5, 0, 3, 0, 4, 0]
   \<and> map flow (edges (fst (initPreflow (build 2 loop_edges) 0 (newQueue 2)))) = [0, 0, 3, - 3, 4, - 4]
   \<and> qlist (snd (initPreflow (build 2 loop_edges) 0 (newQueue 2))) = [0, 0, 1, 1]"
  by code_simp

subsection \<open>When push enqueues\<close>




subsection \<open>Conservation at termination\<close>



subsection \<open>The capacity constraint\<close>




subsection \<open>Malformed input\<close>

text \<open>C9, as the code has it: graph construction validates nothing. It never looks at
  a capacity, so whenever all node ids are in range it succeeds and stores every capacity
  as given (each followed by the 0 of the reverse twin), negative ones included, and the
  engine then runs on them. An id out of range is not reported either: \<^verbatim>\<open>addEdge\<close>
  indexes the node array with it, which the model records as \<open>OutOfBounds\<close>.\<close>

theorem buildGraph_validates_nothing:
  "(ids_ok n ts \<longrightarrow>
      (\<exists>G. buildGraph (newGraph n) ts = Inr G \<and> wf_graph G
           \<and> map cap (edges G) = concat (map (\<lambda>(u, v, c). [c, 0]) ts)))
   \<and> (\<not> ids_ok n ts \<longrightarrow> buildGraph (newGraph n) ts = Inl OutOfBounds)"
proof (intro conjI impI)
  assume "ids_ok n ts"
  then have "ids_ok (length (nodes (newGraph n))) ts" by (simp add: newGraph_def)
  from buildGraph_ok[OF this wf_newGraph fresh_newGraph]
  show "\<exists>G. buildGraph (newGraph n) ts = Inr G \<and> wf_graph G
           \<and> map cap (edges G) = concat (map (\<lambda>(u, v, c). [c, 0]) ts)"
    by (auto simp: newGraph_def)
next
  assume "\<not> ids_ok n ts"
  then have "\<not> ids_ok (length (nodes (newGraph n))) ts" by (simp add: newGraph_def)
  then show "buildGraph (newGraph n) ts = Inl OutOfBounds" by (rule buildGraph_bad)
qed

theorem buildGraph_validates_nothing_witness:
  "(\<exists>G. buildGraph (newGraph 2) [(0, 1, - 5)] = Inr G \<and> wf_graph G
        \<and> map cap (edges G) = [- 5, 0])
   \<and> buildGraph (newGraph 2) [(0, 7, 1)] = Inl OutOfBounds"
  using buildGraph_validates_nothing[of 2 "[(0, 1, - 5)]"]
        buildGraph_validates_nothing[of 2 "[(0, 7, 1)]"]
  by (simp add: ids_ok_def)

text \<open>C9 as stated fails on the input \<^verbatim>\<open>2 0 1 / 0 1 -5\<close>: construction returns a graph
  whose edge has capacity -5, and \<^verbatim>\<open>initPreflow\<close> then pushes -5 along it, leaving
  node 1 with excess -5.\<close>

theorem negative_capacity_not_refused:
  "buildGraph (newGraph 2) [(0, 1, - 5)] = Inr (build 2 [(0, 1, - 5)])
   \<and> map cap (edges (build 2 [(0, 1, - 5)])) = [- 5, 0]
   \<and> map flow (edges (fst (initPreflow (build 2 [(0, 1, - 5)]) 0 (newQueue 2)))) = [- 5, 5]
   \<and> map excess (nodes (fst (initPreflow (build 2 [(0, 1, - 5)]) 0 (newQueue 2)))) = [0, - 5]"
  by code_simp

subsection \<open>Relabelling a dead end\<close>

lemma fold_relabel_min_dead_end:
  "list_all (\<lambda>k. \<not> 0 < residual G k) ks \<Longrightarrow> fold (relabel_min G) ks m = m"
  by (induction ks) (simp_all add: relabel_min_def residual_def Let_def)

text \<open>C7: when no edge that leaves \<open>u\<close> has positive residual capacity, the minimum stays
  \<^verbatim>\<open>INT_MAX\<close> and \<^verbatim>\<open>min + 1\<close> overflows: \<^verbatim>\<open>relabel\<close> leaves \<open>u\<close> at the least height
  there is, not at one above all others.\<close>

theorem relabel_dead_end:
  assumes "u < length (nodes G)"
    and "list_all (\<lambda>k. \<not> 0 < residual G k) (adj (nodes G ! u))"
  shows "height (nodes (fst (relabel G u Q)) ! u) = - 2147483648"
  using assms
  by (simp add: relabel_def fold_relabel_min_dead_end INF_c_def wrap_int_def)

text \<open>On \<open>pit_edges\<close> the sixth round dequeues node 3, which has received nothing yet,
  and relabels it.\<close>

theorem relabel_dead_end_witness:
  "map height (nodes (fst (pit_state 5))) = [5, 1, 1, 0, 0]
   \<and> qlist (snd (pit_state 5)) = [3, 3, 2]
   \<and> list_all (\<lambda>k. \<not> 0 < residual (fst (pit_state 5)) k) (adj (nodes (fst (pit_state 5)) ! 3))
   \<and> height (nodes (fst (relabel (fst (pit_state 5)) 3 (snd (pit_state 5)))) ! 3) = - 2147483648"
proof -
  have a: "3 < length (nodes (fst (pit_state 5)))"
    by code_simp
  have b: "list_all (\<lambda>k. \<not> 0 < residual (fst (pit_state 5)) k) (adj (nodes (fst (pit_state 5)) ! 3))"
    by code_simp
  have c: "map height (nodes (fst (pit_state 5))) = [5, 1, 1, 0, 0]"
    by code_simp
  have d: "qlist (snd (pit_state 5)) = [3, 3, 2]"
    by code_simp
  show ?thesis
    using b c d relabel_dead_end[OF a b, of "snd (pit_state 5)"] by simp
qed

subsection \<open>Height validity\<close>

text \<open>C1: on \<open>pit_edges\<close> (\<^verbatim>\<open>5 0 4 / 0 1 1 / 0 1 1 / 0 1 1 / 1 2 3 / 1 3 5 / 2 4 3\<close>)
  the heights are valid after five rounds. The sixth round relabels node 3 from 0 to
  \<^verbatim>\<open>INT_MIN\<close>; the edge with index 8, from node 1 (height 1) to node 3, still has
  residual capacity 5, so the heights are not valid after that relabel.\<close>

theorem height_validity_broken:
  "buildGraph (newGraph 5) pit_edges = Inr (build 5 pit_edges)
   \<and> height_valid (fst (pit_state 5))
   \<and> map height (nodes (fst (pit_state 6))) = [5, 1, 1, - 2147483648, 0]
   \<and> from_node (edges (fst (pit_state 6)) ! 8) = 1
   \<and> to_node (edges (fst (pit_state 6)) ! 8) = 3
   \<and> residual (fst (pit_state 6)) 8 = 5
   \<and> \<not> height_valid (fst (pit_state 6))"
  by code_simp


end
